theory Spec2Isabelle
  imports Main
begin

section \<open>Values, objects and the store\<close>

text \<open>
  The receivers of \<^verbatim>\<open>command-dp-example-v2.ts\<close> are plain objects indexed by a string
  key (\<^verbatim>\<open>receiver[modificationType]\<close>). A property that is absent reads as
  \<^verbatim>\<open>undefined\<close>; a property that was assigned \<^verbatim>\<open>undefined\<close> is present and reads
  the same. The declared type of every value written is \<^verbatim>\<open>string\<close>; the field
  \<^verbatim>\<open>previousValue\<close> has no initialiser, so it holds \<^verbatim>\<open>undefined\<close> until the first
  \<^verbatim>\<open>execute()\<close>.

  Objects and commands have identity: receivers are addresses into a heap of objects,
  commands are references into a table of command objects, so that one command object
  can sit in the history several times and several commands can share a receiver.
  As their declared types say, a receiver is an object and a command is a
  \<^verbatim>\<open>Command\<close>, never \<^verbatim>\<open>null\<close>. The Invoker's private fields are not among the
  receivers.
\<close>

datatype jsval = Undefined | Str string

type_synonym obj = "string \<rightharpoonup> jsval"

type_synonym addr = nat

type_synonym cref = nat

definition get_prop :: "obj \<Rightarrow> string \<Rightarrow> jsval" where
  "get_prop ob k = (case ob k of None \<Rightarrow> Undefined | Some v \<Rightarrow> v)"

definition set_prop :: "obj \<Rightarrow> string \<Rightarrow> jsval \<Rightarrow> obj" where
  "set_prop ob k v = ob(k \<mapsto> v)"

record ModifyCommandConfig =
  receiver :: addr
  changedValue :: string
  modificationType :: string

record ModifyCommand =
  config :: ModifyCommandConfig
  previousValue :: jsval

record store =
  heap :: "addr \<Rightarrow> obj"
  commands :: "cref \<Rightarrow> ModifyCommand"

section \<open>ModifyCommand\<close>

definition new_ModifyCommand :: "ModifyCommandConfig \<Rightarrow> ModifyCommand" where
  "new_ModifyCommand cfg = \<lparr>config = cfg, previousValue = Undefined\<rparr>"

definition ModifyCommand_execute :: "cref \<Rightarrow> store \<Rightarrow> store" where
  "ModifyCommand_execute this s =
     (let cfg = config (commands s this);
          s1 = s\<lparr>commands := (commands s)(this := (commands s this)
                 \<lparr>previousValue := get_prop (heap s (receiver cfg)) (modificationType cfg)\<rparr>)\<rparr>
      in s1\<lparr>heap := (heap s1)(receiver cfg :=
             set_prop (heap s1 (receiver cfg)) (modificationType cfg) (Str (changedValue cfg)))\<rparr>)"

definition ModifyCommand_undo :: "cref \<Rightarrow> store \<Rightarrow> store" where
  "ModifyCommand_undo this s =
     (let cfg = config (commands s this)
      in s\<lparr>heap := (heap s)(receiver cfg :=
            set_prop (heap s (receiver cfg)) (modificationType cfg)
              (previousValue (commands s this)))\<rparr>)"

text \<open>The three concrete commands only fix the key.\<close>

definition ChangeTextCommand :: "addr \<Rightarrow> string \<Rightarrow> ModifyCommand" where
  "ChangeTextCommand r v =
     new_ModifyCommand \<lparr>receiver = r, changedValue = v, modificationType = ''textContent''\<rparr>"

definition ChangeTextColorCommand :: "addr \<Rightarrow> string \<Rightarrow> ModifyCommand" where
  "ChangeTextColorCommand style v =
     new_ModifyCommand \<lparr>receiver = style, changedValue = v, modificationType = ''color''\<rparr>"

definition ChangeFontSizeCommand :: "addr \<Rightarrow> string \<Rightarrow> ModifyCommand" where
  "ChangeFontSizeCommand style v =
     new_ModifyCommand \<lparr>receiver = style, changedValue = v, modificationType = ''fontSize''\<rparr>"

section \<open>Arrays\<close>

text \<open>
  \<^verbatim>\<open>Array.prototype.splice(start, deleteCount)\<close>, as the array it leaves behind: a
  negative start counts from the end, both arguments are clamped to the array.
  Reading an index outside the array gives \<^verbatim>\<open>undefined\<close>, here \<open>None\<close>.
\<close>

definition splice_js :: "'a list \<Rightarrow> int \<Rightarrow> int \<Rightarrow> 'a list" where
  "splice_js xs start deleteCount =
     (let len = int (length xs);
          actualStart = (if start < 0 then max (len + start) 0 else min start len);
          actualDeleteCount = min (max deleteCount 0) (len - actualStart)
      in take (nat actualStart) xs @ drop (nat (actualStart + actualDeleteCount)) xs)"

definition array_get :: "'a list \<Rightarrow> int \<Rightarrow> 'a option" where
  "array_get xs i = (if 0 \<le> i \<and> i < int (length xs) then Some (xs ! nat i) else None)"

section \<open>Invoker\<close>

record Invoker =
  executedCommands :: "cref list"
  currentExecutionState :: int

record world =
  invoker :: Invoker
  mem :: store

datatype error = TypeError

text \<open>
  A call either returns or throws; what it mutated before throwing stays mutated, so
  both outcomes carry the world. The only throw in the class is a method call on an
  array element that is \<^verbatim>\<open>undefined\<close>.
\<close>

datatype outcome = Normal world | Throws error world

fun world_of :: "outcome \<Rightarrow> world" where
  "world_of (Normal w) = w"
| "world_of (Throws e w) = w"

fun and_then :: "outcome \<Rightarrow> (world \<Rightarrow> outcome) \<Rightarrow> outcome" where
  "and_then (Normal w) f = f w"
| "and_then (Throws e w) f = Throws e w"

definition new_Invoker :: Invoker where
  "new_Invoker = \<lparr>executedCommands = [], currentExecutionState = - 1\<rparr>"

definition Invoker_execute :: "cref \<Rightarrow> world \<Rightarrow> outcome" where
  "Invoker_execute command w =
     (let this = invoker w;
          this1 =
            (if int (length (executedCommands this)) - 1 > currentExecutionState this
             then (let nextCommand = currentExecutionState this + 1
                   in this\<lparr>executedCommands :=
                        splice_js (executedCommands this) nextCommand
                          (int (length (executedCommands this)) - nextCommand)\<rparr>)
             else this);
          this2 = this1\<lparr>executedCommands := executedCommands this1 @ [command]\<rparr>;
          m = ModifyCommand_execute command (mem w)
      in Normal \<lparr>invoker = this2\<lparr>currentExecutionState :=
                                 int (length (executedCommands this2)) - 1\<rparr>,
                 mem = m\<rparr>)"

definition Invoker_undo :: "world \<Rightarrow> outcome" where
  "Invoker_undo w =
     (let this = invoker w
      in if currentExecutionState this \<ge> 0
         then (let i = currentExecutionState this;
                   w1 = w\<lparr>invoker := this\<lparr>currentExecutionState := i - 1\<rparr>\<rparr>
               in case array_get (executedCommands this) i of
                    None \<Rightarrow> Throws TypeError w1
                  | Some c \<Rightarrow> Normal (w1\<lparr>mem := ModifyCommand_undo c (mem w1)\<rparr>))
         else Normal w)"

definition Invoker_redo :: "world \<Rightarrow> outcome" where
  "Invoker_redo w =
     (let this = invoker w
      in if currentExecutionState this < int (length (executedCommands this)) - 1
         then (let i = currentExecutionState this + 1;
                   w1 = w\<lparr>invoker := this\<lparr>currentExecutionState := i\<rparr>\<rparr>
               in case array_get (executedCommands this) i of
                    None \<Rightarrow> Throws TypeError w1
                  | Some c \<Rightarrow> Normal (w1\<lparr>mem := ModifyCommand_execute c (mem w1)\<rparr>))
         else Normal w)"

section \<open>Call sequences and reachable states\<close>

datatype call = Execute cref | Undo | Redo

fun step :: "call \<Rightarrow> world \<Rightarrow> outcome" where
  "step (Execute c) w = Invoker_execute c w"
| "step Undo w = Invoker_undo w"
| "step Redo w = Invoker_redo w"

text \<open>A sequence of calls made one after the other; an uncaught throw ends it.\<close>

fun run :: "call list \<Rightarrow> world \<Rightarrow> outcome" where
  "run [] w = Normal w"
| "run (c # cs) w = and_then (step c w) (run cs)"

definition fresh :: "world \<Rightarrow> bool" where
  "fresh w = (invoker w = new_Invoker)"

inductive reachable :: "world \<Rightarrow> bool" where
  reachable_fresh: "fresh w \<Longrightarrow> reachable w"
| reachable_step: "reachable w \<Longrightarrow> step c w = Normal w' \<Longrightarrow> reachable w'"

definition cursor_invariant :: "Invoker \<Rightarrow> bool" where
  "cursor_invariant this =
     (- 1 \<le> currentExecutionState this \<and>
      currentExecutionState this \<le> int (length (executedCommands this)) - 1)"

text \<open>The read \<^verbatim>\<open>receiver[modificationType]\<close> of a command's own target field.\<close>

definition target_field :: "cref \<Rightarrow> store \<Rightarrow> jsval" where
  "target_field c s =
     get_prop (heap s (receiver (config (commands s c))))
       (modificationType (config (commands s c)))"

text \<open>Two heaps in which every field of every object reads the same.\<close>

definition same_fields :: "(addr \<Rightarrow> obj) \<Rightarrow> (addr \<Rightarrow> obj) \<Rightarrow> bool" where
  "same_fields h h' = (\<forall>a k. get_prop (h a) k = get_prop (h' a) k)"

section \<open>The steps of execute, as specified\<close>

text \<open>
  The specification describes \<^verbatim>\<open>execute(operation)\<close> as four steps: discard the entries
  after the cursor unless the cursor points at the last index, append the operation,
  apply it, set the cursor to the last index. \<open>execute_steps\<close> follows those words,
  to be compared with \<open>Invoker_execute\<close>.
\<close>

definition discard_redo_branch :: "Invoker \<Rightarrow> Invoker" where
  "discard_redo_branch this =
     (if currentExecutionState this \<noteq> int (length (executedCommands this)) - 1
      then this\<lparr>executedCommands :=
             take (nat (currentExecutionState this + 1)) (executedCommands this)\<rparr>
      else this)"

definition execute_steps :: "cref \<Rightarrow> world \<Rightarrow> world" where
  "execute_steps operation w =
     (let h1 = discard_redo_branch (invoker w);
          h2 = h1\<lparr>executedCommands := executedCommands h1 @ [operation]\<rparr>;
          m3 = ModifyCommand_execute operation (mem w);
          h4 = h2\<lparr>currentExecutionState := int (length (executedCommands h2)) - 1\<rparr>
      in \<lparr>invoker = h4, mem = m3\<rparr>)"

section \<open>The command methods a call sequence invokes\<close>

text \<open>
  Each Invoker call invokes at most one method of one command: \<^verbatim>\<open>execute\<close> calls
  \<^verbatim>\<open>command.execute()\<close>, \<^verbatim>\<open>undo\<close> calls \<^verbatim>\<open>undo()\<close> on the entry at the cursor,
  \<^verbatim>\<open>redo\<close> calls \<^verbatim>\<open>execute()\<close> on the entry after it. \<open>trace\<close> lists the invocations
  of a call sequence in order.
\<close>

datatype invocation = Apply cref | Revert cref

fun invoke :: "invocation \<Rightarrow> store \<Rightarrow> store" where
  "invoke (Apply c) s = ModifyCommand_execute c s"
| "invoke (Revert c) s = ModifyCommand_undo c s"

fun invoke_all :: "invocation list \<Rightarrow> store \<Rightarrow> store" where
  "invoke_all [] s = s"
| "invoke_all (i # is) s = invoke_all is (invoke i s)"

fun operation_of :: "invocation \<Rightarrow> cref" where
  "operation_of (Apply c) = c"
| "operation_of (Revert c) = c"

definition target_of :: "store \<Rightarrow> cref \<Rightarrow> addr" where
  "target_of s c = receiver (config (commands s c))"

fun dispatched :: "call \<Rightarrow> world \<Rightarrow> invocation list" where
  "dispatched (Execute c) w = [Apply c]"
| "dispatched Undo w =
     (if currentExecutionState (invoker w) \<ge> 0
      then (case array_get (executedCommands (invoker w)) (currentExecutionState (invoker w)) of
              None \<Rightarrow> []
            | Some c \<Rightarrow> [Revert c])
      else [])"
| "dispatched Redo w =
     (if currentExecutionState (invoker w) < int (length (executedCommands (invoker w))) - 1
      then (case array_get (executedCommands (invoker w))
                   (currentExecutionState (invoker w) + 1) of
              None \<Rightarrow> []
            | Some c \<Rightarrow> [Apply c])
      else [])"

fun trace :: "call list \<Rightarrow> world \<Rightarrow> invocation list" where
  "trace [] w = []"
| "trace (c # cs) w =
     dispatched c w @ (case step c w of Normal w' \<Rightarrow> trace cs w' | Throws e w' \<Rightarrow> [])"

section \<open>An example world\<close>

text \<open>
  Two targets, \<^verbatim>\<open>{value: "A"}\<close> at address 0 and \<^verbatim>\<open>{value: "X"}\<close> at address 1, and
  freshly constructed commands: command 1 sets the first target's \<^verbatim>\<open>value\<close> to "C",
  command 2 sets the second target's to "Y", every other command sets the first
  target's to "B". The Invoker is new.
\<close>

definition example_store :: store where
  "example_store =
     \<lparr>heap = (\<lambda>a. Map.empty)(0 := [''value'' \<mapsto> Str ''A''], 1 := [''value'' \<mapsto> Str ''X'']),
      commands =
        (\<lambda>c. new_ModifyCommand
                \<lparr>receiver = 0, changedValue = ''B'', modificationType = ''value''\<rparr>)
        (1 := new_ModifyCommand
                \<lparr>receiver = 0, changedValue = ''C'', modificationType = ''value''\<rparr>,
         2 := new_ModifyCommand
                \<lparr>receiver = 1, changedValue = ''Y'', modificationType = ''value''\<rparr>)\<rparr>"

definition example_world :: world where
  "example_world = \<lparr>invoker = new_Invoker, mem = example_store\<rparr>"

section \<open>Reads, writes and arrays\<close>

lemma get_set_prop [simp]:
  "get_prop (set_prop ob k v) k' = (if k' = k then v else get_prop ob k')"
  by (simp add: get_prop_def set_prop_def)

lemma splice_tail:
  assumes "0 \<le> i" and "i \<le> int (length xs)"
  shows "splice_js xs i (int (length xs) - i) = take (nat i) xs"
  using assms by (auto simp: splice_js_def Let_def min_def max_def)

lemma array_get_append_last [simp]:
  "array_get (xs @ [x]) (int (length xs)) = Some x"
  by (simp add: array_get_def)

lemma array_get_in_range:
  "0 \<le> i \<Longrightarrow> i < int (length xs) \<Longrightarrow> array_get xs i = Some (xs ! nat i)"
  by (simp add: array_get_def)

section \<open>The cursor invariant\<close>

lemma execute_returns: "\<exists>w'. Invoker_execute c w = Normal w'"
  by (simp add: Invoker_execute_def Let_def)

lemma execute_cursor:
  "cursor_invariant (invoker (world_of (Invoker_execute c w)))"
  by (simp add: Invoker_execute_def Let_def cursor_invariant_def)

lemma undo_returns:
  "cursor_invariant (invoker w) \<Longrightarrow> \<exists>w'. Invoker_undo w = Normal w'"
  by (auto simp: Invoker_undo_def Let_def cursor_invariant_def array_get_def)

lemma redo_returns:
  "cursor_invariant (invoker w) \<Longrightarrow> \<exists>w'. Invoker_redo w = Normal w'"
  by (auto simp: Invoker_redo_def Let_def cursor_invariant_def array_get_def)

lemma undo_cursor:
  "cursor_invariant (invoker w) \<Longrightarrow> cursor_invariant (invoker (world_of (Invoker_undo w)))"
  by (auto simp: Invoker_undo_def Let_def cursor_invariant_def split: option.splits)

lemma redo_cursor:
  "cursor_invariant (invoker w) \<Longrightarrow> cursor_invariant (invoker (world_of (Invoker_redo w)))"
  by (auto simp: Invoker_redo_def Let_def cursor_invariant_def split: option.splits)

lemma step_cursor:
  "cursor_invariant (invoker w) \<Longrightarrow> cursor_invariant (invoker (world_of (step c w)))"
  by (cases c) (simp_all add: execute_cursor undo_cursor redo_cursor)

lemma step_returns:
  "cursor_invariant (invoker w) \<Longrightarrow> \<exists>w'. step c w = Normal w'"
  by (cases c) (simp_all add: execute_returns undo_returns redo_returns)

lemma fresh_cursor: "fresh w \<Longrightarrow> cursor_invariant (invoker w)"
  by (simp add: fresh_def new_Invoker_def cursor_invariant_def)

lemma reachable_cursor: "reachable w \<Longrightarrow> cursor_invariant (invoker w)"
proof (induction rule: reachable.induct)
  case (reachable_fresh w)
  then show ?case by (rule fresh_cursor)
next
  case (reachable_step w c w')
  from step_cursor [OF reachable_step.IH, of c] reachable_step.hyps(2)
  show ?case by simp
qed

section \<open>What each call does inside the invariant\<close>

lemma execute_in_range:
  assumes "cursor_invariant (invoker w)"
  shows "Invoker_execute c w =
           Normal \<lparr>invoker =
                     \<lparr>executedCommands =
                        take (nat (currentExecutionState (invoker w) + 1))
                          (executedCommands (invoker w)) @ [c],
                      currentExecutionState = currentExecutionState (invoker w) + 1\<rparr>,
                   mem = ModifyCommand_execute c (mem w)\<rparr>"
proof (cases "int (length (executedCommands (invoker w))) - 1 > currentExecutionState (invoker w)")
  case True
  with assms have "splice_js (executedCommands (invoker w)) (currentExecutionState (invoker w) + 1)
        (int (length (executedCommands (invoker w))) - (currentExecutionState (invoker w) + 1))
      = take (nat (currentExecutionState (invoker w) + 1)) (executedCommands (invoker w))"
    by (intro splice_tail) (simp_all add: cursor_invariant_def)
  with True assms show ?thesis
    by (simp add: Invoker_execute_def Let_def cursor_invariant_def min_def)
next
  case False
  with assms have "currentExecutionState (invoker w) = int (length (executedCommands (invoker w))) - 1"
    by (simp add: cursor_invariant_def)
  with False show ?thesis
    by (simp add: Invoker_execute_def Let_def)
qed

lemma execute_eq_steps:
  assumes "cursor_invariant (invoker w)"
  shows "Invoker_execute c w = Normal (execute_steps c w)"
proof -
  have "execute_steps c w =
           \<lparr>invoker =
                     \<lparr>executedCommands =
                        take (nat (currentExecutionState (invoker w) + 1))
                          (executedCommands (invoker w)) @ [c],
                      currentExecutionState = currentExecutionState (invoker w) + 1\<rparr>,
                   mem = ModifyCommand_execute c (mem w)\<rparr>"
    using assms
    by (auto simp: execute_steps_def discard_redo_branch_def Let_def cursor_invariant_def min_def)
  with execute_in_range [OF assms] show ?thesis by simp
qed

lemma undo_at_boundary:
  "currentExecutionState (invoker w) = - 1 \<Longrightarrow> Invoker_undo w = Normal w"
  by (simp add: Invoker_undo_def Let_def)

lemma redo_at_boundary:
  "currentExecutionState (invoker w) = int (length (executedCommands (invoker w))) - 1
     \<Longrightarrow> Invoker_redo w = Normal w"
  by (simp add: Invoker_redo_def Let_def)

lemma undo_log:
  "executedCommands (invoker (world_of (Invoker_undo w))) = executedCommands (invoker w)"
  by (simp add: Invoker_undo_def Let_def split: option.splits)

lemma redo_log:
  "executedCommands (invoker (world_of (Invoker_redo w))) = executedCommands (invoker w)"
  by (simp add: Invoker_redo_def Let_def split: option.splits)

lemma step_mem:
  "mem (world_of (step c w)) = invoke_all (dispatched c w) (mem w)"
  by (cases c) (simp_all add: Invoker_execute_def Invoker_undo_def Invoker_redo_def Let_def
      split: option.splits)

section \<open>The command methods and the round trip\<close>

lemma execute_heap:
  "heap (ModifyCommand_execute c s) =
     (heap s)(target_of s c :=
        set_prop (heap s (target_of s c)) (modificationType (config (commands s c)))
          (Str (changedValue (config (commands s c)))))"
  by (simp add: ModifyCommand_execute_def Let_def target_of_def)

lemma execute_commands:
  "commands (ModifyCommand_execute c s) =
     (commands s)(c := (commands s c)\<lparr>previousValue := target_field c s\<rparr>)"
  by (simp add: ModifyCommand_execute_def Let_def target_field_def)

lemma undo_heap:
  "heap (ModifyCommand_undo c s) =
     (heap s)(target_of s c :=
        set_prop (heap s (target_of s c)) (modificationType (config (commands s c)))
          (previousValue (commands s c)))"
  by (simp add: ModifyCommand_undo_def Let_def target_of_def)

lemma undo_commands: "commands (ModifyCommand_undo c s) = commands s"
  by (simp add: ModifyCommand_undo_def Let_def)

lemma set_prop_twice [simp]: "set_prop (set_prop ob k v) k v' = set_prop ob k v'"
  by (simp add: set_prop_def)

lemma revert_apply_after_apply:
  "ModifyCommand_execute c (ModifyCommand_undo c (ModifyCommand_execute c s))
     = ModifyCommand_execute c s"
  by (simp add: ModifyCommand_execute_def ModifyCommand_undo_def Let_def)

lemma undo_redo_at_tail:
  assumes "executedCommands (invoker w) = xs @ [c]"
    and "currentExecutionState (invoker w) = int (length xs)"
  shows "and_then (Invoker_undo w) Invoker_redo =
           Normal (w\<lparr>mem := ModifyCommand_execute c (ModifyCommand_undo c (mem w))\<rparr>)"
  using assms by (simp add: Invoker_undo_def Invoker_redo_def Let_def)

lemma and_then_Normal [simp]: "and_then x Normal = x"
  by (cases x) simp_all

lemma run_Nil [simp]: "run [] = Normal"
  by (rule ext) simp

lemma and_then_assoc: "and_then (and_then x f) g = and_then x (\<lambda>w. and_then (f w) g)"
  by (cases x) simp_all

lemma run_append: "run (cs @ ds) w = and_then (run cs w) (run ds)"
proof (induction cs arbitrary: w)
  case Nil
  show ?case by simp
next
  case (Cons c cs)
  then have "run (cs @ ds) = (\<lambda>w. and_then (run cs w) (run ds))"
    by (intro ext) simp
  then show ?case by (simp add: and_then_assoc)
qed

lemma execute_at_tail:
  "\<exists>w1 xs. Invoker_execute c w = Normal w1 \<and> executedCommands (invoker w1) = xs @ [c]
      \<and> currentExecutionState (invoker w1) = int (length xs)
      \<and> mem w1 = ModifyCommand_execute c (mem w)"
  by (simp add: Invoker_execute_def Let_def)

lemma execute_undo_redo:
  "run [Execute c, Undo, Redo] w = Invoker_execute c w"
proof -
  obtain w1 xs where e: "Invoker_execute c w = Normal w1"
    and l: "executedCommands (invoker w1) = xs @ [c]"
    and i: "currentExecutionState (invoker w1) = int (length xs)"
    and m: "mem w1 = ModifyCommand_execute c (mem w)"
    using execute_at_tail by blast
  have "and_then (Invoker_undo w1) Invoker_redo = Normal w1"
    by (simp add: undo_redo_at_tail [OF l i] m revert_apply_after_apply)
  moreover have "run [Execute c, Undo, Redo] w = and_then (Invoker_undo w1) Invoker_redo"
    by (cases "Invoker_undo w1") (simp_all add: e)
  ultimately show ?thesis using e by simp
qed

section \<open>The history as applied prefix and redo branch\<close>

lemma execute_shape:
  assumes "executedCommands (invoker w) = xs @ ys"
    and "currentExecutionState (invoker w) = int (length xs) - 1"
  shows "Invoker_execute c w =
           Normal \<lparr>invoker = \<lparr>executedCommands = xs @ [c],
                               currentExecutionState = int (length xs)\<rparr>,
                   mem = ModifyCommand_execute c (mem w)\<rparr>"
proof -
  from assms have "cursor_invariant (invoker w)"
    by (simp add: cursor_invariant_def)
  from execute_in_range [OF this, of c] assms show ?thesis by simp
qed

lemma undo_shape:
  assumes "executedCommands (invoker w) = xs @ c # ys"
    and "currentExecutionState (invoker w) = int (length xs)"
  shows "Invoker_undo w =
           Normal (w\<lparr>invoker := (invoker w)\<lparr>currentExecutionState := int (length xs) - 1\<rparr>,
                     mem := ModifyCommand_undo c (mem w)\<rparr>)"
  using assms by (simp add: Invoker_undo_def Let_def array_get_def)

lemma redo_shape:
  assumes "executedCommands (invoker w) = xs @ c # ys"
    and "currentExecutionState (invoker w) = int (length xs) - 1"
  shows "Invoker_redo w =
           Normal (w\<lparr>invoker := (invoker w)\<lparr>currentExecutionState := int (length xs)\<rparr>,
                     mem := ModifyCommand_execute c (mem w)\<rparr>)"
  using assms by (simp add: Invoker_redo_def Let_def array_get_def)

lemma invariant_shape:
  assumes "cursor_invariant (invoker w)"
  obtains xs ys where "executedCommands (invoker w) = xs @ ys"
    and "currentExecutionState (invoker w) = int (length xs) - 1"
    and "xs = take (nat (currentExecutionState (invoker w) + 1)) (executedCommands (invoker w))"
proof
  let ?n = "nat (currentExecutionState (invoker w) + 1)"
  show "executedCommands (invoker w) =
          take ?n (executedCommands (invoker w)) @ drop ?n (executedCommands (invoker w))"
    by simp
  from assms show "currentExecutionState (invoker w) =
          int (length (take ?n (executedCommands (invoker w)))) - 1"
    by (auto simp: cursor_invariant_def min_def)
  show "take ?n (executedCommands (invoker w)) = take ?n (executedCommands (invoker w))" ..
qed

lemma branch_discard_shape:
  assumes l: "executedCommands (invoker w) = xs @ ys"
    and i: "currentExecutionState (invoker w) = int (length xs) - 1"
  shows "\<exists>w4. run [Execute o1, Execute o2, Undo, Execute o3] w = Normal w4
           \<and> Invoker_redo w4 = Normal w4
           \<and> executedCommands (invoker w4) = xs @ [o1, o3]"
proof -
  obtain w1 where w1: "Invoker_execute o1 w = Normal w1"
    and l1: "executedCommands (invoker w1) = (xs @ [o1]) @ []"
    and i1: "currentExecutionState (invoker w1) = int (length (xs @ [o1])) - 1"
    using execute_shape [OF l i, of o1] by simp
  obtain w2 where w2: "Invoker_execute o2 w1 = Normal w2"
    and l2: "executedCommands (invoker w2) = (xs @ [o1]) @ o2 # []"
    and i2: "currentExecutionState (invoker w2) = int (length (xs @ [o1]))"
    using execute_shape [OF l1 i1, of o2] by simp
  obtain w3 where w3: "Invoker_undo w2 = Normal w3"
    and l3: "executedCommands (invoker w3) = (xs @ [o1]) @ [o2]"
    and i3: "currentExecutionState (invoker w3) = int (length (xs @ [o1])) - 1"
    using undo_shape [OF l2 i2] l2 by simp
  obtain w4 where w4: "Invoker_execute o3 w3 = Normal w4"
    and l4: "executedCommands (invoker w4) = xs @ [o1, o3]"
    and i4: "currentExecutionState (invoker w4) = int (length (xs @ [o1]))"
    using execute_shape [OF l3 i3, of o3] by simp
  have "run [Execute o1, Execute o2, Undo, Execute o3] w = Normal w4"
    by (simp add: w1 w2 w3 w4)
  moreover have "Invoker_redo w4 = Normal w4"
    by (rule redo_at_boundary) (simp add: l4 i4)
  ultimately show ?thesis using l4 by blast
qed

lemma branch_discard:
  assumes "cursor_invariant (invoker w)"
  shows "\<exists>w4. run [Execute o1, Execute o2, Undo, Execute o3] w = Normal w4
           \<and> Invoker_redo w4 = Normal w4
           \<and> executedCommands (invoker w4) =
               take (nat (currentExecutionState (invoker w) + 1)) (executedCommands (invoker w))
                 @ [o1, o3]"
proof -
  from assms obtain xs ys where l: "executedCommands (invoker w) = xs @ ys"
    and i: "currentExecutionState (invoker w) = int (length xs) - 1"
    and x: "xs = take (nat (currentExecutionState (invoker w) + 1)) (executedCommands (invoker w))"
    by (rule invariant_shape)
  from branch_discard_shape [OF l i, of o1 o2 o3] x show ?thesis by simp
qed

section \<open>Undoing a run of executes\<close>

lemma execute_config [simp]:
  "config (commands (ModifyCommand_execute c s) c') = config (commands s c')"
  by (simp add: execute_commands)

lemma undo_config [simp]:
  "config (commands (ModifyCommand_undo c s) c') = config (commands s c')"
  by (simp add: undo_commands)

lemma execute_other_command:
  "c' \<noteq> c \<Longrightarrow> commands (ModifyCommand_execute c s) c' = commands s c'"
  by (simp add: execute_commands)

lemma execute_previousValue:
  "previousValue (commands (ModifyCommand_execute c s) c) = target_field c s"
  by (simp add: execute_commands)

lemma undo_after_execute_fields:
  assumes h: "same_fields (heap t) (heap (ModifyCommand_execute c s))"
    and c: "commands t c = commands (ModifyCommand_execute c s) c"
  shows "same_fields (heap (ModifyCommand_undo c t)) (heap s)"
  using h unfolding same_fields_def
  by (simp add: undo_heap execute_heap c execute_previousValue target_of_def target_field_def)

lemma restore_at_tail:
  assumes "distinct cs"
    and "executedCommands (invoker w) = xs"
    and "currentExecutionState (invoker w) = int (length xs) - 1"
  shows "\<exists>w'. run (map Execute cs @ replicate (length cs) Undo) w = Normal w'
           \<and> same_fields (heap (mem w')) (heap (mem w))
           \<and> executedCommands (invoker w') = xs @ cs
           \<and> currentExecutionState (invoker w') = int (length xs) - 1
           \<and> (\<forall>c. c \<notin> set cs \<longrightarrow> commands (mem w') c = commands (mem w) c)"
  using assms
proof (induction cs arbitrary: w xs)
  case Nil
  then show ?case by (simp add: same_fields_def)
next
  case (Cons c cs)
  from Cons.prems have l: "executedCommands (invoker w) = xs @ []"
    and i: "currentExecutionState (invoker w) = int (length xs) - 1"
    by simp_all
  define w1 where "w1 = \<lparr>invoker = \<lparr>executedCommands = xs @ [c],
                                         currentExecutionState = int (length xs)\<rparr>,
                             mem = ModifyCommand_execute c (mem w)\<rparr>"
  have w1: "Invoker_execute c w = Normal w1"
    unfolding w1_def by (rule execute_shape [OF l i])
  have l1: "executedCommands (invoker w1) = xs @ [c]"
    and i1: "currentExecutionState (invoker w1) = int (length (xs @ [c])) - 1"
    and m1: "mem w1 = ModifyCommand_execute c (mem w)"
    by (simp_all add: w1_def)
  from Cons.prems have d: "distinct cs" and n: "c \<notin> set cs"
    by simp_all
  from Cons.IH [OF d l1 i1] obtain w2
    where w2: "run (map Execute cs @ replicate (length cs) Undo) w1 = Normal w2"
      and h2: "same_fields (heap (mem w2)) (heap (mem w1))"
      and l2: "executedCommands (invoker w2) = xs @ c # cs"
      and i2: "currentExecutionState (invoker w2) = int (length xs)"
      and c2: "\<forall>c'. c' \<notin> set cs \<longrightarrow> commands (mem w2) c' = commands (mem w1) c'"
    by auto
  let ?w3 = "w2\<lparr>invoker := (invoker w2)\<lparr>currentExecutionState := int (length xs) - 1\<rparr>,
                  mem := ModifyCommand_undo c (mem w2)\<rparr>"
  have w3: "Invoker_undo w2 = Normal ?w3"
    by (rule undo_shape [OF l2 i2])
  have "map Execute (c # cs) @ replicate (length (c # cs)) Undo
          = Execute c # ((map Execute cs @ replicate (length cs) Undo) @ [Undo])"
    by (simp add: replicate_append_same)
  then have "run (map Execute (c # cs) @ replicate (length (c # cs)) Undo) w
          = run ((map Execute cs @ replicate (length cs) Undo) @ [Undo]) w1"
    by (simp only: run.simps step.simps w1 and_then.simps)
  then have "run (map Execute (c # cs) @ replicate (length (c # cs)) Undo) w
          = and_then (run (map Execute cs @ replicate (length cs) Undo) w1) (run [Undo])"
    by (simp only: run_append)
  then have r: "run (map Execute (c # cs) @ replicate (length (c # cs)) Undo) w = Normal ?w3"
    by (simp add: w2 w3)
  have "same_fields (heap (ModifyCommand_undo c (mem w2))) (heap (mem w))"
    using h2 c2 n by (intro undo_after_execute_fields) (simp_all add: m1)
  moreover have "\<forall>c'. c' \<notin> set (c # cs) \<longrightarrow> commands (mem ?w3) c' = commands (mem w) c'"
    using c2 by (simp add: undo_commands m1 execute_other_command)
  ultimately show ?case using r l2 by simp
qed

lemma invoke_all_append: "invoke_all (is @ js) s = invoke_all js (invoke_all is s)"
  by (induction "is" arbitrary: s) simp_all

lemma run_mem: "mem (world_of (run cs w)) = invoke_all (trace cs w) (mem w)"
proof (induction cs arbitrary: w)
  case Nil
  show ?case by simp
next
  case (Cons c cs)
  show ?case
  proof (cases "step c w")
    case (Normal w')
    with Cons.IH [of w'] step_mem [of c w] show ?thesis
      by (simp add: invoke_all_append)
  next
    case (Throws e w')
    with step_mem [of c w] show ?thesis by simp
  qed
qed

section \<open>Targets do not interfere\<close>

lemma execute_frame:
  assumes "target_of s c \<noteq> Y"
  shows "ModifyCommand_execute c (s\<lparr>heap := (heap s)(Y := ob)\<rparr>)
           = (ModifyCommand_execute c s)\<lparr>heap := (heap (ModifyCommand_execute c s))(Y := ob)\<rparr>"
proof -
  let ?r = "receiver (config (commands s c))"
  from assms have n: "?r \<noteq> Y" by (simp add: target_of_def)
  have "heap (ModifyCommand_execute c (s\<lparr>heap := (heap s)(Y := ob)\<rparr>))
          = (heap (ModifyCommand_execute c s))(Y := ob)"
    using n by (simp add: execute_heap target_of_def fun_upd_twist [of ?r Y])
  moreover have "commands (ModifyCommand_execute c (s\<lparr>heap := (heap s)(Y := ob)\<rparr>))
          = commands (ModifyCommand_execute c s)"
    using n by (simp add: execute_commands target_field_def)
  ultimately show ?thesis by simp
qed

lemma undo_frame:
  assumes "target_of s c \<noteq> Y"
  shows "ModifyCommand_undo c (s\<lparr>heap := (heap s)(Y := ob)\<rparr>)
           = (ModifyCommand_undo c s)\<lparr>heap := (heap (ModifyCommand_undo c s))(Y := ob)\<rparr>"
proof -
  let ?r = "receiver (config (commands s c))"
  from assms have n: "?r \<noteq> Y" by (simp add: target_of_def)
  have "heap (ModifyCommand_undo c (s\<lparr>heap := (heap s)(Y := ob)\<rparr>))
          = (heap (ModifyCommand_undo c s))(Y := ob)"
    using n by (simp add: undo_heap target_of_def fun_upd_twist [of ?r Y])
  moreover have "commands (ModifyCommand_undo c (s\<lparr>heap := (heap s)(Y := ob)\<rparr>))
          = commands (ModifyCommand_undo c s)"
    by (simp add: undo_commands)
  ultimately show ?thesis by simp
qed

lemma invoke_target_of [simp]: "target_of (invoke i s) c = target_of s c"
  by (cases i) (simp_all add: target_of_def)

lemma invoke_config [simp]: "config (commands (invoke i s) c) = config (commands s c)"
  by (cases i) simp_all

lemma invoke_other_target:
  assumes "target_of s (operation_of i) \<noteq> Y"
  shows "heap (invoke i s) Y = heap s Y"
    and "target_of s c = Y \<Longrightarrow> commands (invoke i s) c = commands s c"
proof -
  from assms show "heap (invoke i s) Y = heap s Y"
    by (cases i) (simp_all add: execute_heap undo_heap)
  show "commands (invoke i s) c = commands s c" if "target_of s c = Y"
    using that assms by (cases i) (auto simp: execute_commands undo_commands)
qed

lemma invoke_same_target:
  assumes "heap s Y = heap t Y"
    and "\<forall>c. config (commands s c) = config (commands t c)"
    and "\<forall>c. target_of s c = Y \<longrightarrow> commands s c = commands t c"
    and "target_of s (operation_of i) = Y"
  shows "heap (invoke i s) Y = heap (invoke i t) Y"
    and "target_of s c = Y \<Longrightarrow> commands (invoke i s) c = commands (invoke i t) c"
proof -
  from assms(2) have t: "\<And>c. target_of t c = target_of s c"
    by (simp add: target_of_def)
  from assms(3,4) have o: "commands s (operation_of i) = commands t (operation_of i)"
    by simp
  show "heap (invoke i s) Y = heap (invoke i t) Y"
    using assms(1,4) o
    by (cases i) (simp_all add: execute_heap undo_heap t)
  show "commands (invoke i s) c = commands (invoke i t) c" if "target_of s c = Y"
    using that assms(1,3,4) o
    by (cases i) (simp_all add: execute_commands undo_commands target_field_def target_of_def)
qed

lemma invoke_all_projection:
  assumes "heap s Y = heap t Y"
    and "\<forall>c. config (commands s c) = config (commands t c)"
    and "\<forall>c. target_of s c = Y \<longrightarrow> commands s c = commands t c"
  shows "heap (invoke_all is s) Y
           = heap (invoke_all (filter (\<lambda>i. target_of s (operation_of i) = Y) is) t) Y"
  using assms
proof (induction "is" arbitrary: s t)
  case Nil
  then show ?case by simp
next
  case (Cons i "is")
  show ?case
  proof (cases "target_of s (operation_of i) = Y")
    case True
    have "heap (invoke_all is (invoke i s)) Y
            = heap (invoke_all (filter (\<lambda>j. target_of (invoke i s) (operation_of j) = Y) is)
                  (invoke i t)) Y"
    proof (rule Cons.IH)
      show "heap (invoke i s) Y = heap (invoke i t) Y"
        by (rule invoke_same_target(1) [OF Cons.prems True])
      show "\<forall>c. config (commands (invoke i s) c) = config (commands (invoke i t) c)"
        using Cons.prems(2) by simp
      show "\<forall>c. target_of (invoke i s) c = Y \<longrightarrow> commands (invoke i s) c = commands (invoke i t) c"
        using invoke_same_target(2) [OF Cons.prems True] by simp
    qed
    with True show ?thesis by simp
  next
    case False
    have "heap (invoke_all is (invoke i s)) Y
            = heap (invoke_all (filter (\<lambda>j. target_of (invoke i s) (operation_of j) = Y) is) t) Y"
    proof (rule Cons.IH)
      show "heap (invoke i s) Y = heap t Y"
        using invoke_other_target(1) [OF False] Cons.prems(1) by simp
      show "\<forall>c. config (commands (invoke i s) c) = config (commands t c)"
        using Cons.prems(2) by simp
      show "\<forall>c. target_of (invoke i s) c = Y \<longrightarrow> commands (invoke i s) c = commands t c"
        using invoke_other_target(2) [OF False] Cons.prems(3) by simp
    qed
    with False show ?thesis by simp
  qed
qed

lemma run_projection:
  "heap (mem (world_of (run cs w))) Y
     = heap (invoke_all (filter (\<lambda>i. target_of (mem w) (operation_of i) = Y) (trace cs w))
          (mem w)) Y"
  unfolding run_mem by (rule invoke_all_projection) simp_all

section \<open>Runs from reachable states, and the example world\<close>

lemmas model_defs =
  example_world_def example_store_def new_Invoker_def new_ModifyCommand_def
  Invoker_execute_def Invoker_undo_def Invoker_redo_def
  ModifyCommand_execute_def ModifyCommand_undo_def
  splice_js_def array_get_def get_prop_def set_prop_def target_field_def target_of_def
  Let_def

lemma run_returns:
  "cursor_invariant (invoker w) \<Longrightarrow> \<exists>w'. run cs w = Normal w'"
proof (induction cs arbitrary: w)
  case Nil
  show ?case by simp
next
  case (Cons c cs)
  from step_returns [OF Cons.prems, of c] obtain w1 where s: "step c w = Normal w1" ..
  with step_cursor [OF Cons.prems, of c] have "cursor_invariant (invoker w1)" by simp
  from Cons.IH [OF this] s show ?case by simp
qed

lemma reachable_run:
  "reachable w \<Longrightarrow> run cs w = Normal w' \<Longrightarrow> reachable w'"
proof (induction cs arbitrary: w)
  case Nil
  then show ?case by simp
next
  case (Cons c cs)
  from step_returns [OF reachable_cursor [OF Cons.prems(1)], of c]
  obtain w1 where s: "step c w = Normal w1" ..
  with Cons.prems(1) have "reachable w1" by (rule reachable_step)
  moreover from Cons.prems(2) s have "run cs w1 = Normal w'" by simp
  ultimately show ?case by (rule Cons.IH)
qed

lemma reachable_after_run:
  assumes "reachable w"
  shows "reachable (world_of (run cs w))"
proof -
  from run_returns [OF reachable_cursor [OF assms], of cs]
  obtain w' where r: "run cs w = Normal w'" ..
  with reachable_run [OF assms r] show ?thesis by simp
qed

lemma example_fresh: "fresh example_world"
  by (simp add: fresh_def example_world_def)

lemma example_reachable: "reachable example_world"
  by (rule reachable_fresh) (rule example_fresh)

text \<open>
  The scenario of the specification: target \<^verbatim>\<open>{value: "A"}\<close>; execute "set to B", undo,
  redo, execute "set to C", then three undos, the third of which finds nothing to undo.
\<close>

lemma concrete_scenario:
  "target_field 0 (mem (world_of (run [Execute 0] example_world))) = Str ''B''"
  "target_field 0 (mem (world_of (run [Execute 0, Undo] example_world))) = Str ''A''"
  "target_field 0 (mem (world_of (run [Execute 0, Undo, Redo] example_world))) = Str ''B''"
  "target_field 0 (mem (world_of (run [Execute 0, Undo, Redo, Execute 1] example_world)))
     = Str ''C''"
  "target_field 0 (mem (world_of
       (run [Execute 0, Undo, Redo, Execute 1, Undo, Undo] example_world))) = Str ''A''"
  "target_field 0 (mem (world_of
       (run [Execute 0, Undo, Redo, Execute 1, Undo, Undo, Undo] example_world))) = Str ''A''"
  by (simp_all add: model_defs)

section \<open>The claims\<close>

subsection \<open>C1: branch discard\<close>

text \<open>
  C1, as stated: from any reachable state, after \<^verbatim>\<open>execute(o1), execute(o2), undo(),
  execute(o3)\<close> a \<^verbatim>\<open>redo()\<close> is a no-op and the log is exactly \<open>[o1, o3]\<close>. The log
  part fails from a reachable state that already has an applied entry: after
  \<^verbatim>\<open>execute\<close> of command 0 in the example world, the same four calls leave the log
  \<open>[0, 1, 3]\<close>.
\<close>

theorem C1_log_counterexample:
  "reachable (world_of (run [Execute 0] example_world)) \<and>
   executedCommands (invoker (world_of
       (run [Execute 1, Execute 2, Undo, Execute 3] (world_of (run [Execute 0] example_world)))))
     \<noteq> [1, 3]"
proof
  show "reachable (world_of (run [Execute 0] example_world))"
    by (rule reachable_after_run [OF example_reachable])
  show "executedCommands (invoker (world_of
       (run [Execute 1, Execute 2, Undo, Execute 3] (world_of (run [Execute 0] example_world)))))
     \<noteq> [1, 3]"
    by (simp add: model_defs)
qed

text \<open>
  C1, amended: from any reachable state, the four calls return, a following \<^verbatim>\<open>redo()\<close>
  returns the world unchanged (cursor, log, every target and every command), and the log
  is the entries that were applied before the calls (indices up to the cursor), followed
  by \<open>o1, o3\<close>; it is exactly \<open>[o1, o3]\<close> when the cursor was \<open>-1\<close>, as on a new
  Invoker.
\<close>

theorem C1_branch_discard:
  assumes "reachable w"
  shows "\<exists>w4. run [Execute o1, Execute o2, Undo, Execute o3] w = Normal w4
           \<and> Invoker_redo w4 = Normal w4
           \<and> executedCommands (invoker w4) =
               take (nat (currentExecutionState (invoker w) + 1)) (executedCommands (invoker w))
                 @ [o1, o3]
           \<and> (currentExecutionState (invoker w) = - 1
                \<longrightarrow> executedCommands (invoker w4) = [o1, o3])"
proof -
  from branch_discard [OF reachable_cursor [OF assms], of o1 o2 o3]
  obtain w4 where r: "run [Execute o1, Execute o2, Undo, Execute o3] w = Normal w4"
    and n: "Invoker_redo w4 = Normal w4"
    and l: "executedCommands (invoker w4) =
              take (nat (currentExecutionState (invoker w) + 1)) (executedCommands (invoker w))
                @ [o1, o3]"
    by blast
  from l have "currentExecutionState (invoker w) = - 1
                 \<longrightarrow> executedCommands (invoker w4) = [o1, o3]"
    by simp
  with r n l show ?thesis by blast
qed

theorem C1_branch_discard_witness:
  "reachable example_world \<and> currentExecutionState (invoker example_world) = - 1 \<and>
   (\<exists>w4. run [Execute 1, Execute 2, Undo, Execute 3] example_world = Normal w4
      \<and> Invoker_redo w4 = Normal w4
      \<and> executedCommands (invoker w4) = [1, 3])"
proof -
  have c: "currentExecutionState (invoker example_world) = - 1"
    by (simp add: example_world_def new_Invoker_def)
  from C1_branch_discard [OF example_reachable, of 1 2 3] c example_reachable
  show ?thesis by blast
qed

subsection \<open>C2: n undos after n executes\<close>

text \<open>
  C2, as stated: for every sequence of executes on a new Invoker, as many undos restore
  every target. It fails when one command object is executed twice, which is what two
  clicks on one button do: the second \<^verbatim>\<open>execute()\<close> overwrites \<^verbatim>\<open>previousValue\<close> with
  the value the first one wrote. In the example world, command 0 executed twice and then
  two undos leave the target's \<^verbatim>\<open>value\<close> at "B", not at "A".
\<close>

theorem C2_repeated_command_counterexample:
  "fresh example_world \<and>
   get_prop (heap (mem example_world) 0) ''value'' = Str ''A'' \<and>
   get_prop (heap (mem (world_of (run [Execute 0, Execute 0, Undo, Undo] example_world))) 0)
     ''value'' = Str ''B''"
  by (simp add: example_fresh) (simp add: model_defs)

text \<open>
  C2, amended: for every sequence of executes on a new Invoker whose operations are
  pairwise distinct command objects, as many undos return and leave every field of every
  target reading the value it had before the first execute. (A field that was absent
  reads \<^verbatim>\<open>undefined\<close> before and after; the undo has assigned \<^verbatim>\<open>undefined\<close> to it.)
\<close>

theorem C2_undo_all_restores:
  assumes "fresh w" and "distinct cs"
  shows "\<exists>w'. run (map Execute cs @ replicate (length cs) Undo) w = Normal w'
           \<and> same_fields (heap (mem w')) (heap (mem w))"
proof -
  from assms(1) have l: "executedCommands (invoker w) = []"
    and i: "currentExecutionState (invoker w) = int (length ([] :: cref list)) - 1"
    by (simp_all add: fresh_def new_Invoker_def)
  from restore_at_tail [OF assms(2) l i] show ?thesis by blast
qed

theorem C2_undo_all_restores_witness:
  "fresh example_world \<and> distinct [0, 2, 1 :: cref] \<and>
   (\<exists>w'. run [Execute 0, Execute 2, Execute 1, Undo, Undo, Undo] example_world = Normal w'
      \<and> same_fields (heap (mem w')) (heap (mem example_world)))"
proof -
  have d: "distinct [0, 2, 1 :: cref]" by simp
  from C2_undo_all_restores [OF example_fresh d] example_fresh d
  show ?thesis by (simp add: numeral_3_eq_3)
qed

subsection \<open>C3: execute, undo, redo\<close>

text \<open>
  C3: from every state (the reachable ones among them) and for every operation,
  \<^verbatim>\<open>execute(o)\<close> returns, and \<^verbatim>\<open>execute(o); undo(); redo()\<close> returns the very world
  \<^verbatim>\<open>execute(o)\<close> alone returns; in particular the target's mutated field reads the same.
\<close>

theorem C3_round_trip:
  "\<exists>w1. run [Execute c] w = Normal w1
      \<and> run [Execute c, Undo, Redo] w = Normal w1
      \<and> target_field c (mem (world_of (run [Execute c, Undo, Redo] w)))
          = target_field c (mem w1)"
proof -
  from execute_returns obtain w1 where e: "Invoker_execute c w = Normal w1" ..
  with execute_undo_redo [of c w] have "run [Execute c, Undo, Redo] w = Normal w1"
    by simp
  with e show ?thesis by simp
qed

theorem C3_round_trip_witness:
  "target_field 0 (mem (world_of (run [Execute 0, Undo, Redo] example_world)))
     = target_field 0 (mem (world_of (run [Execute 0] example_world)))"
  using C3_round_trip [of 0 example_world] by auto

subsection \<open>C4: the cursor invariant\<close>

text \<open>
  C4: \<open>- 1 \<le> cursor \<le> length log - 1\<close> holds for a new Invoker; from a state where it
  holds, every execute, undo and redo call returns and the invariant holds afterwards;
  so it holds in every reachable state.
\<close>

theorem C4_cursor_invariant:
  "cursor_invariant new_Invoker
   \<and> (cursor_invariant (invoker w)
        \<longrightarrow> (\<exists>w'. step c w = Normal w' \<and> cursor_invariant (invoker w')))
   \<and> (reachable w \<longrightarrow> cursor_invariant (invoker w))"
proof (intro conjI impI)
  show "cursor_invariant new_Invoker"
    by (simp add: cursor_invariant_def new_Invoker_def)
next
  assume v: "cursor_invariant (invoker w)"
  from step_returns [OF v, of c] obtain w' where s: "step c w = Normal w'" ..
  with step_cursor [OF v, of c] show "\<exists>w'. step c w = Normal w' \<and> cursor_invariant (invoker w')"
    by simp
next
  assume "reachable w"
  then show "cursor_invariant (invoker w)" by (rule reachable_cursor)
qed

theorem C4_cursor_invariant_witness:
  "reachable (world_of (run [Execute 0, Execute 1, Undo] example_world)) \<and>
   cursor_invariant (invoker (world_of (run [Execute 0, Execute 1, Undo] example_world))) \<and>
   (\<exists>w'. step Redo (world_of (run [Execute 0, Execute 1, Undo] example_world)) = Normal w'
      \<and> cursor_invariant (invoker w'))"
proof -
  have r: "reachable (world_of (run [Execute 0, Execute 1, Undo] example_world))"
    by (rule reachable_after_run [OF example_reachable])
  from C4_cursor_invariant [of "world_of (run [Execute 0, Execute 1, Undo] example_world)" Redo] r
  show ?thesis by blast
qed

subsection \<open>C5: the steps of execute\<close>

text \<open>
  C5: in every reachable state \<^verbatim>\<open>execute(operation)\<close> returns (it has no throw of its
  own), and the world it returns is the one the four specified steps produce: discard the
  entries after the cursor unless the cursor is at the last index, append the operation,
  apply it, set the cursor to the last index.
\<close>

theorem C5_execute_steps:
  assumes "reachable w"
  shows "Invoker_execute operation w = Normal (execute_steps operation w)"
  using reachable_cursor [OF assms] by (rule execute_eq_steps)

theorem C5_execute_steps_witness:
  "reachable (world_of (run [Execute 0, Execute 1, Undo] example_world)) \<and>
   Invoker_execute 2 (world_of (run [Execute 0, Execute 1, Undo] example_world))
     = Normal (execute_steps 2 (world_of (run [Execute 0, Execute 1, Undo] example_world))) \<and>
   executedCommands (invoker
       (execute_steps 2 (world_of (run [Execute 0, Execute 1, Undo] example_world)))) = [0, 2]"
proof -
  have r: "reachable (world_of (run [Execute 0, Execute 1, Undo] example_world))"
    by (rule reachable_after_run [OF example_reachable])
  have "executedCommands (invoker
       (execute_steps 2 (world_of (run [Execute 0, Execute 1, Undo] example_world)))) = [0, 2]"
    by (simp add: execute_steps_def discard_redo_branch_def model_defs)
  with C5_execute_steps [OF r, of 2] r show ?thesis by blast
qed

subsection \<open>C6: no-ops at the ends of the history\<close>

text \<open>
  C6: \<^verbatim>\<open>undo()\<close> with the cursor at \<open>-1\<close> returns (it does not throw) and leaves the
  whole world as it was, cursor, log, targets and commands; \<^verbatim>\<open>redo()\<close> with the cursor
  at the last index of the log does the same.
\<close>

theorem C6_boundary_no_ops:
  "(currentExecutionState (invoker w) = - 1 \<longrightarrow> Invoker_undo w = Normal w)
   \<and> (currentExecutionState (invoker w) = int (length (executedCommands (invoker w))) - 1
        \<longrightarrow> Invoker_redo w = Normal w)"
  by (simp add: undo_at_boundary redo_at_boundary)

theorem C6_boundary_no_ops_witness:
  "currentExecutionState (invoker (world_of (run [Execute 0, Undo] example_world))) = - 1 \<and>
   Invoker_undo (world_of (run [Execute 0, Undo] example_world))
     = Normal (world_of (run [Execute 0, Undo] example_world)) \<and>
   currentExecutionState (invoker (world_of (run [Execute 0] example_world)))
     = int (length (executedCommands (invoker (world_of (run [Execute 0] example_world))))) - 1 \<and>
   Invoker_redo (world_of (run [Execute 0] example_world))
     = Normal (world_of (run [Execute 0] example_world))"
proof -
  have a: "currentExecutionState (invoker (world_of (run [Execute 0, Undo] example_world))) = - 1"
    by (simp add: model_defs)
  have b: "currentExecutionState (invoker (world_of (run [Execute 0] example_world)))
     = int (length (executedCommands (invoker (world_of (run [Execute 0] example_world))))) - 1"
    by (simp add: model_defs)
  from C6_boundary_no_ops [of "world_of (run [Execute 0, Undo] example_world)"]
    C6_boundary_no_ops [of "world_of (run [Execute 0] example_world)"] a b
  show ?thesis by blast
qed

subsection \<open>C7: revert before apply\<close>

text \<open>
  C7, as stated: \<^verbatim>\<open>ModifyCommand.undo()\<close> before any \<^verbatim>\<open>execute()\<close> either leaves the
  target's field unchanged or fails with a distinct error. The method has no guard: on a
  freshly constructed command it returns normally and assigns the unset
  \<^verbatim>\<open>previousValue\<close>. In the example store the target's \<^verbatim>\<open>value\<close> goes from "A" to
  \<^verbatim>\<open>undefined\<close>.
\<close>

theorem C7_revert_first_counterexample:
  "previousValue (commands example_store 0) = Undefined \<and>
   target_field 0 example_store = Str ''A'' \<and>
   heap (ModifyCommand_undo 0 example_store) 0 ''value'' = Some Undefined \<and>
   target_field 0 (ModifyCommand_undo 0 example_store) = Undefined"
  by (simp add: model_defs)

text \<open>
  C7, amended: \<^verbatim>\<open>ModifyCommand.undo()\<close> is unguarded: on every call it returns normally
  and assigns the current \<^verbatim>\<open>previousValue\<close> to the target's field; on a command on
  which \<^verbatim>\<open>execute()\<close> has never been called that value is \<^verbatim>\<open>undefined\<close>, which is
  assigned.
\<close>

theorem C7_revert_unguarded:
  "heap (ModifyCommand_undo c s) (target_of s c) (modificationType (config (commands s c)))
     = Some (previousValue (commands s c))
   \<and> (commands s c = new_ModifyCommand cfg
        \<longrightarrow> heap (ModifyCommand_undo c s) (receiver cfg) (modificationType cfg)
              = Some Undefined)"
  by (simp add: undo_heap set_prop_def target_of_def new_ModifyCommand_def)

theorem C7_revert_unguarded_witness:
  "commands example_store 0
     = new_ModifyCommand \<lparr>receiver = 0, changedValue = ''B'', modificationType = ''value''\<rparr> \<and>
   heap (ModifyCommand_undo 0 example_store) 0 ''value'' = Some Undefined"
proof -
  have c: "commands example_store 0
     = new_ModifyCommand \<lparr>receiver = 0, changedValue = ''B'', modificationType = ''value''\<rparr>"
    by (simp add: example_store_def)
  from C7_revert_unguarded [of 0 example_store
      "\<lparr>receiver = 0, changedValue = ''B'', modificationType = ''value''\<rparr>"] c
  show ?thesis by simp
qed

subsection \<open>C8: apply captures the current value on every call\<close>

text \<open>
  C8: every \<^verbatim>\<open>ModifyCommand.execute()\<close> stores the value the target's field reads
  before the call in \<^verbatim>\<open>previousValue\<close> and then writes \<^verbatim>\<open>changedValue\<close> to the field.
  So after two consecutive calls \<^verbatim>\<open>previousValue\<close> is \<^verbatim>\<open>changedValue\<close>, a following
  \<^verbatim>\<open>undo()\<close> leaves the field at \<^verbatim>\<open>changedValue\<close>, and when \<^verbatim>\<open>changedValue\<close> differs
  from the original value the field is not back at the original.
\<close>

theorem C8_apply_recaptures:
  "previousValue (commands (ModifyCommand_execute c s) c) = target_field c s
   \<and> target_field c (ModifyCommand_execute c s) = Str (changedValue (config (commands s c)))
   \<and> previousValue (commands (ModifyCommand_execute c (ModifyCommand_execute c s)) c)
       = Str (changedValue (config (commands s c)))
   \<and> target_field c (ModifyCommand_undo c (ModifyCommand_execute c (ModifyCommand_execute c s)))
       = Str (changedValue (config (commands s c)))
   \<and> (target_field c s \<noteq> Str (changedValue (config (commands s c)))
        \<longrightarrow> target_field c
               (ModifyCommand_undo c (ModifyCommand_execute c (ModifyCommand_execute c s)))
              \<noteq> target_field c s)"
  by (simp add: ModifyCommand_execute_def ModifyCommand_undo_def target_field_def Let_def)

theorem C8_apply_recaptures_witness:
  "target_field 0 example_store = Str ''A'' \<and>
   target_field 0
     (ModifyCommand_undo 0 (ModifyCommand_execute 0 (ModifyCommand_execute 0 example_store)))
     = Str ''B''"
proof -
  have a: "target_field 0 example_store = Str ''A''"
    and b: "changedValue (config (commands example_store 0)) = ''B''"
    by (simp_all add: model_defs)
  from C8_apply_recaptures [of 0 example_store] a b show ?thesis by simp
qed

subsection \<open>C9: targets are independent\<close>

text \<open>
  C9: let X and Y be distinct targets. A command whose receiver is X neither reads nor
  writes Y: \<^verbatim>\<open>execute()\<close> and \<^verbatim>\<open>undo()\<close> commute with replacing the object at Y by
  any other object, and leave the object at Y as it was. For every sequence of
  execute/undo/redo calls on the Invoker, the store afterwards is the result of the
  command methods the calls invoked, in order, and the object at Y is the one that
  results from invoking, in the same order, only those methods whose command has
  receiver Y.
\<close>

theorem C9_target_independence:
  assumes "X \<noteq> Y" and "target_of s c = X"
  shows "ModifyCommand_execute c (s\<lparr>heap := (heap s)(Y := ob)\<rparr>)
           = (ModifyCommand_execute c s)\<lparr>heap := (heap (ModifyCommand_execute c s))(Y := ob)\<rparr>
         \<and> ModifyCommand_undo c (s\<lparr>heap := (heap s)(Y := ob)\<rparr>)
           = (ModifyCommand_undo c s)\<lparr>heap := (heap (ModifyCommand_undo c s))(Y := ob)\<rparr>
         \<and> heap (ModifyCommand_execute c s) Y = heap s Y
         \<and> heap (ModifyCommand_undo c s) Y = heap s Y
         \<and> mem (world_of (run cs w)) = invoke_all (trace cs w) (mem w)
         \<and> heap (mem (world_of (run cs w))) Y
           = heap (invoke_all
                    (filter (\<lambda>i. target_of (mem w) (operation_of i) = Y) (trace cs w))
                    (mem w)) Y"
proof -
  from assms have n: "target_of s c \<noteq> Y" by simp
  have "heap (ModifyCommand_execute c s) Y = heap s Y"
    using invoke_other_target(1) [of s "Apply c" Y] n by simp
  moreover have "heap (ModifyCommand_undo c s) Y = heap s Y"
    using invoke_other_target(1) [of s "Revert c" Y] n by simp
  moreover note execute_frame [OF n, of ob] undo_frame [OF n, of ob]
    run_mem [of cs w] run_projection [of cs w Y]
  ultimately show ?thesis by blast
qed

theorem C9_target_independence_witness:
  "(0 :: addr) \<noteq> 1 \<and> target_of example_store 0 = 0 \<and>
   heap (ModifyCommand_execute 0 example_store) 1 = heap example_store 1 \<and>
   trace [Execute 0, Execute 2, Undo, Undo, Redo, Execute 1] example_world
     = [Apply 0, Apply 2, Revert 2, Revert 0, Apply 0, Apply 1] \<and>
   heap (mem (world_of (run [Execute 0, Execute 2, Undo, Undo, Redo, Execute 1] example_world))) 1
     = heap (invoke_all [Apply 2, Revert 2] example_store) 1"
proof -
  have t: "target_of example_store 0 = 0"
    by (simp add: model_defs)
  have tr: "trace [Execute 0, Execute 2, Undo, Undo, Redo, Execute 1] example_world
     = [Apply 0, Apply 2, Revert 2, Revert 0, Apply 0, Apply 1]"
    by (simp add: model_defs)
  have m: "mem example_world = example_store"
    by (simp add: example_world_def)
  have f: "filter (\<lambda>i. target_of example_store (operation_of i) = 1)
             [Apply 0, Apply 2, Revert 2, Revert 0, Apply 0, Apply 1] = [Apply 2, Revert 2]"
    by (simp add: model_defs)
  have n: "(0 :: addr) \<noteq> 1" by simp
  note c9 = C9_target_independence [OF n t,
      of Map.empty "[Execute 0, Execute 2, Undo, Undo, Redo, Execute 1]" example_world]
  from c9 have a: "heap (ModifyCommand_execute 0 example_store) 1 = heap example_store 1"
    by blast
  from c9 have "heap (mem (world_of
            (run [Execute 0, Execute 2, Undo, Undo, Redo, Execute 1] example_world))) 1
     = heap (invoke_all
              (filter (\<lambda>i. target_of (mem example_world) (operation_of i) = 1)
                 (trace [Execute 0, Execute 2, Undo, Undo, Redo, Execute 1] example_world))
              (mem example_world)) 1"
    by blast
  then have b: "heap (mem (world_of
            (run [Execute 0, Execute 2, Undo, Undo, Redo, Execute 1] example_world))) 1
     = heap (invoke_all [Apply 2, Revert 2] example_store) 1"
    by (simp only: m tr f)
  from n t a tr b show ?thesis by blast
qed

subsection \<open>C10: undo and redo leave the log alone\<close>

text \<open>
  C10: in every state (the reachable ones among them), after \<^verbatim>\<open>undo()\<close> and after
  \<^verbatim>\<open>redo()\<close> the array \<^verbatim>\<open>executedCommands\<close> is the one before the call, same length
  and same entries in the same order; the rest of the store changes only through the one
  command method the call invokes.
\<close>

theorem C10_log_unchanged:
  "executedCommands (invoker (world_of (Invoker_undo w))) = executedCommands (invoker w)
   \<and> executedCommands (invoker (world_of (Invoker_redo w))) = executedCommands (invoker w)
   \<and> mem (world_of (Invoker_undo w)) = invoke_all (dispatched Undo w) (mem w)
   \<and> mem (world_of (Invoker_redo w)) = invoke_all (dispatched Redo w) (mem w)"
  using step_mem [of Undo w] step_mem [of Redo w] by (simp add: undo_log redo_log)

theorem C10_log_unchanged_witness:
  "executedCommands (invoker (world_of
       (Invoker_undo (world_of (run [Execute 0, Execute 1] example_world))))) = [0, 1] \<and>
   executedCommands (invoker (world_of
       (Invoker_redo (world_of (run [Execute 0, Execute 1, Undo] example_world))))) = [0, 1]"
proof -
  have a: "executedCommands (invoker (world_of (run [Execute 0, Execute 1] example_world)))
             = [0, 1]"
    and b: "executedCommands (invoker (world_of (run [Execute 0, Execute 1, Undo] example_world)))
             = [0, 1]"
    by (simp_all add: model_defs)
  from C10_log_unchanged [of "world_of (run [Execute 0, Execute 1] example_world)"]
    C10_log_unchanged [of "world_of (run [Execute 0, Execute 1, Undo] example_world)"] a b
  show ?thesis by simp
qed

end
